theory Spec2Isabelle
  imports Main "HOL-Library.Sublist" "HOL-Library.AList"
begin

section \<open>Generators as pull-based state machines\<close>

text \<open>
  The module \<^verbatim>\<open>generators.py\<close> is a collection of Python generators. A generator
  object is modelled by its suspended state together with a function that performs one
  \<^verbatim>\<open>next()\<close> on that state. One pull has four outcomes:
  \<^item> \<open>Some (Value v s')\<close>: the generator yielded \<open>v\<close> and is suspended in state \<open>s'\<close>;
  \<^item> \<open>Some Exhausted\<close>: the body returned, \<^verbatim>\<open>next()\<close> raises \<^verbatim>\<open>StopIteration\<close>;
  \<^item> \<open>Some (Raised e)\<close>: another exception left the generator;
  \<^item> \<open>None\<close>: the pull does not return (the body loops without reaching a yield).
\<close>

text \<open>
  The exceptions of Python the module can meet: \<^verbatim>\<open>TypeError\<close> from the generator
  protocol, \<^verbatim>\<open>RuntimeError\<close> and \<^verbatim>\<open>OSError\<close> from an iterator handed in by a
  caller. \<^verbatim>\<open>StopIteration\<close> is not among them: it is the outcome \<open>Exhausted\<close>.
\<close>

datatype py_error = TypeError | RuntimeError | OSError

datatype ('a, 's) pull = Value 'a 's | Exhausted | Raised py_error

type_synonym ('a, 's) iterator = "'s \<Rightarrow> ('a, 's) pull option"

subsection \<open>Consumers: \<^verbatim>\<open>list(it)\<close> and \<^verbatim>\<open>[next(it) for _ in range(n)]\<close>\<close>

text \<open>
  \<^verbatim>\<open>list(pipeline)\<close> pulls until \<^verbatim>\<open>StopIteration\<close> and returns the values in the
  order they were produced; any other exception propagates. On an iterator that is never
  exhausted it does not return.
\<close>

partial_function (option) drain :: "('a, 's) iterator \<Rightarrow> 's \<Rightarrow> (py_error + 'a list) option" where
  "drain it s =
     (case it s of
        None \<Rightarrow> None
      | Some Exhausted \<Rightarrow> Some (Inr [])
      | Some (Raised e) \<Rightarrow> Some (Inl e)
      | Some (Value v s') \<Rightarrow>
          Option.bind (drain it s')
            (\<lambda>r. case r of Inl e \<Rightarrow> Some (Inl e) | Inr vs \<Rightarrow> Some (Inr (v # vs))))"

declare drain.simps [code]

text \<open>
  \<^verbatim>\<open>for _ in range(n): next(it)\<close>, as \<^verbatim>\<open>demonstrate_infinite_generator\<close> and
  \<^verbatim>\<open>compare_list_vs_generator\<close> consume their generators: \<open>n\<close> pulls, the values in
  order and the state the iterator is left in. A \<^verbatim>\<open>StopIteration\<close> or another exception
  of one of the pulls propagates to the caller.
\<close>

primrec take_n :: "nat \<Rightarrow> ('a, 's) iterator \<Rightarrow> 's \<Rightarrow> ('a list, 's) pull option" where
  "take_n 0 it s = Some (Value [] s)"
| "take_n (Suc n) it s =
     (case it s of
        None \<Rightarrow> None
      | Some Exhausted \<Rightarrow> Some Exhausted
      | Some (Raised e) \<Rightarrow> Some (Raised e)
      | Some (Value v s') \<Rightarrow>
          (case take_n n it s' of
             None \<Rightarrow> None
           | Some Exhausted \<Rightarrow> Some Exhausted
           | Some (Raised e) \<Rightarrow> Some (Raised e)
           | Some (Value vs s'') \<Rightarrow> Some (Value (v # vs) s'')))"

subsection \<open>Section 5 of the module: the generator pipeline\<close>

text \<open>
  \<^verbatim>\<open>read_numbers(data)\<close>: \<^verbatim>\<open>for number in data: yield number\<close>. The suspended state
  is the part of \<open>data\<close> the loop has not reached yet.
\<close>

definition read_numbers :: "int list \<Rightarrow> int list" where
  "read_numbers data = data"

fun read_numbers_next :: "(int, int list) iterator" where
  "read_numbers_next [] = Some Exhausted"
| "read_numbers_next (number # rest) = Some (Value number rest)"

text \<open>
  \<^verbatim>\<open>filter_even(numbers)\<close>: \<^verbatim>\<open>for num in numbers: if num % 2 == 0: yield num\<close>.
  The generator keeps no state of its own besides the upstream iterator. One pull takes
  upstream elements until an even one arrives; Python's \<^verbatim>\<open>%\<close> on integers is the
  flooring \<open>mod\<close> of \<open>int\<close>. The end of the upstream ends the \<^verbatim>\<open>for\<close> loop and so the
  generator; an exception of the upstream passes through.
\<close>

partial_function (option) filter_even :: "(int, 's) iterator \<Rightarrow> (int, 's) iterator" where
  "filter_even numbers s =
     (case numbers s of
        None \<Rightarrow> None
      | Some Exhausted \<Rightarrow> Some Exhausted
      | Some (Raised e) \<Rightarrow> Some (Raised e)
      | Some (Value num s') \<Rightarrow>
          if num mod 2 = 0 then Some (Value num s') else filter_even numbers s')"

declare filter_even.simps [code]

text \<open>\<^verbatim>\<open>square(numbers)\<close>: \<^verbatim>\<open>for num in numbers: yield num ** 2\<close>.\<close>

definition square :: "(int, 's) iterator \<Rightarrow> (int, 's) iterator" where
  "square numbers s =
     (case numbers s of
        None \<Rightarrow> None
      | Some Exhausted \<Rightarrow> Some Exhausted
      | Some (Raised e) \<Rightarrow> Some (Raised e)
      | Some (Value num s') \<Rightarrow> Some (Value (num ^ 2) s'))"

text \<open>
  The pipeline of \<^verbatim>\<open>demonstrate_pipeline\<close> is built by function application,
  \<^verbatim>\<open>square(filter_even(read_numbers(data)))\<close>. A composition of stages is a list of
  the module's stages in the order they are applied to the source.
\<close>

datatype stage = FilterEven | Square

fun apply_stage :: "stage \<Rightarrow> (int, 's) iterator \<Rightarrow> (int, 's) iterator" where
  "apply_stage FilterEven numbers = filter_even numbers"
| "apply_stage Square numbers = square numbers"

definition compose :: "stage list \<Rightarrow> (int, 's) iterator \<Rightarrow> (int, 's) iterator" where
  "compose stages source = foldl (\<lambda>numbers st. apply_stage st numbers) source stages"

text \<open>\<^verbatim>\<open>results = list(pipeline)\<close> in \<^verbatim>\<open>demonstrate_pipeline\<close>.\<close>

definition demonstrate_pipeline :: "(py_error + int list) option" where
  "demonstrate_pipeline =
     drain (square (filter_even read_numbers_next))
       (read_numbers [1, 2, 3, 4, 5, 6, 7, 8, 9, 10])"

text \<open>
  The eager transform of the specification: the same stages on a concrete list, a filter
  stage as a list filter and a map stage as a list map.
\<close>

fun eager_stage :: "stage \<Rightarrow> int list \<Rightarrow> int list" where
  "eager_stage FilterEven xs = filter (\<lambda>num. num mod 2 = 0) xs"
| "eager_stage Square xs = map (\<lambda>num. num ^ 2) xs"

definition eager :: "stage list \<Rightarrow> int list \<Rightarrow> int list" where
  "eager stages xs = foldl (\<lambda>ys st. eager_stage st ys) xs stages"

subsection \<open>Section 1 of the module: a basic generator\<close>

text \<open>
  \<^verbatim>\<open>count_up_to(max_value)\<close>: \<^verbatim>\<open>count = 1; while count <= max_value: yield count; count += 1\<close>.
  The suspended state holds the two locals of the frame, \<open>count\<close> already advanced to
  the value the next pull tests.
\<close>

record count_state =
  max_value :: int
  count :: int

definition count_up_to :: "int \<Rightarrow> count_state" where
  "count_up_to mv = \<lparr>max_value = mv, count = 1\<rparr>"

definition count_up_to_next :: "(int, count_state) iterator" where
  "count_up_to_next st =
     (if count st \<le> max_value st
      then Some (Value (count st) (st\<lparr>count := count st + 1\<rparr>))
      else Some Exhausted)"

subsection \<open>Section 3 of the module: an infinite generator\<close>

text \<open>
  \<^verbatim>\<open>fibonacci_generator()\<close>: \<^verbatim>\<open>a, b = 0, 1; while True: yield a; a, b = b, a + b\<close>.
  Python integers are unbounded, as \<open>int\<close> is.
\<close>

definition fibonacci_generator :: "int \<times> int" where
  "fibonacci_generator = (0, 1)"

fun fibonacci_next :: "(int, int \<times> int) iterator" where
  "fibonacci_next (a, b) = Some (Value a (b, a + b))"

subsection \<open>Section 4 of the module: a generator with \<^verbatim>\<open>send()\<close>\<close>

text \<open>
  \<^verbatim>\<open>accumulator()\<close>: \<^verbatim>\<open>total = 0.0; while True: value = yield total; if value is not None: total += value\<close>.
  Calling the generator function runs none of its body: the object is \<open>Created\<close>, and
  \<open>Suspended tot\<close> once it waits at the \<^verbatim>\<open>yield\<close> with the local \<open>total\<close> equal to
  \<open>tot\<close>. \<^verbatim>\<open>next(acc)\<close> is \<^verbatim>\<open>acc.send(None)\<close>. Python's generator protocol refuses
  a value other than \<^verbatim>\<open>None\<close> sent to a generator that has not started, with
  \<^verbatim>\<open>TypeError: can't send non-None value to a just-started generator\<close>; no statement of
  the body has run then. The source adds floats; the model takes the addition and the
  zero of the value type as they are and uses none of their laws.
\<close>

datatype 'a gen_state = Created | Suspended 'a

definition accumulator :: "'a gen_state" where
  "accumulator = Created"

fun send :: "'a option \<Rightarrow> 'a::{zero,plus} gen_state \<Rightarrow> py_error + 'a \<times> 'a gen_state" where
  "send None Created = Inr (0, Suspended 0)"
| "send (Some v) Created = Inl TypeError"
| "send None (Suspended tot) = Inr (tot, Suspended tot)"
| "send (Some v) (Suspended tot) = Inr (tot + v, Suspended (tot + v))"

text \<open>
  The calls \<^verbatim>\<open>acc.send(v1); ...; acc.send(vn)\<close> of \<^verbatim>\<open>demonstrate_send\<close>, one after
  the other on the same object; the first exception ends the sequence.
\<close>

primrec send_all :: "'a list \<Rightarrow> 'a::{zero,plus} gen_state \<Rightarrow> py_error + 'a gen_state" where
  "send_all [] st = Inr st"
| "send_all (v # vs) st =
     (case send (Some v) st of Inl e \<Rightarrow> Inl e | Inr (_, st') \<Rightarrow> send_all vs st')"

subsection \<open>Section 6 of the module: the iterator class \<^verbatim>\<open>Range\<close>\<close>

text \<open>
  The object has the four attributes \<^verbatim>\<open>__init__\<close> sets; \<^verbatim>\<open>__next__\<close> changes
  \<open>current\<close> only. \<^verbatim>\<open>Range(start, stop=None, step=1)\<close>: the optional \<open>stop\<close> is an
  \<open>option\<close>.
\<close>

record Range_obj =
  start :: int
  stop :: int
  step :: int
  current :: int

definition Range_init :: "int \<Rightarrow> int option \<Rightarrow> int \<Rightarrow> Range_obj" where
  "Range_init start0 stop0 step0 =
     (case stop0 of
        None \<Rightarrow> \<lparr>start = 0, stop = start0, step = step0, current = 0\<rparr>
      | Some stop1 \<Rightarrow> \<lparr>start = start0, stop = stop1, step = step0, current = start0\<rparr>)"

definition Range_next :: "(int, Range_obj) iterator" where
  "Range_next self =
     (if (step self > 0 \<and> current self \<ge> stop self) \<or>
         (step self < 0 \<and> current self \<le> stop self)
      then Some Exhausted
      else Some (Value (current self) (self\<lparr>current := current self + step self\<rparr>)))"

subsection \<open>Section 7 of the module: \<^verbatim>\<open>yield from\<close>\<close>

text \<open>
  \<^verbatim>\<open>flatten(nested_list)\<close>: an item is a list (\<^verbatim>\<open>isinstance(item, list)\<close>) or an atom.
  Each active call of \<open>flatten\<close> is a frame holding what its \<^verbatim>\<open>for\<close> loop has not
  reached yet; \<^verbatim>\<open>yield from flatten(item)\<close> puts a frame on top of the caller's, and a
  frame whose loop has ended returns to the one below. The generator is exhausted when
  the last frame returns.
\<close>

datatype 'a nested = Item 'a | Sub "'a nested list"

definition flatten :: "'a nested list \<Rightarrow> 'a nested list list" where
  "flatten nested_list = [nested_list]"

fun flatten_next :: "('a, 'a nested list list) iterator" where
  "flatten_next [] = Some Exhausted"
| "flatten_next ([] # frames) = flatten_next frames"
| "flatten_next ((Item x # rest) # frames) = Some (Value x (rest # frames))"
| "flatten_next ((Sub sub # rest) # frames) = flatten_next (sub # rest # frames)"

text \<open>
  \<^verbatim>\<open>list(flatten(nested))\<close> on the nested list of \<^verbatim>\<open>demonstrate_yield_from\<close>.
\<close>

definition demonstrate_yield_from :: "(py_error + int list) option" where
  "demonstrate_yield_from =
     drain flatten_next
       (flatten [Item 1, Sub [Item 2, Item 3, Sub [Item 4, Item 5]], Item 6,
                 Sub [Item 7, Sub [Item 8, Item 9]]])"

subsection \<open>Section 8 of the module: lazy CSV processing\<close>

text \<open>
  \<^verbatim>\<open>iter(csv_data)\<close>, the list iterator \<^verbatim>\<open>demonstrate_file_processing\<close> passes in.
\<close>

definition iter :: "'a list \<Rightarrow> 'a list" where
  "iter xs = xs"

fun iter_next :: "('a, 'a list) iterator" where
  "iter_next [] = Some Exhausted"
| "iter_next (x # xs) = Some (Value x xs)"

text \<open>
  \<^verbatim>\<open>line.split(sep)\<close> with a separator of one character: the fields between the
  separators, in order, empty ones included; a line without separator is one field.
\<close>

fun split_from :: "char \<Rightarrow> string \<Rightarrow> string \<Rightarrow> string list" where
  "split_from sep field [] = [field]"
| "split_from sep field (c # cs) =
     (if c = sep then field # split_from sep [] cs else split_from sep (field @ [c]) cs)"

definition str_split :: "string \<Rightarrow> char \<Rightarrow> string list" where
  "str_split line sep = split_from sep [] line"

text \<open>
  \<^verbatim>\<open>dict(pairs)\<close>: the pairs are inserted in order. A dictionary keeps its keys in the
  order of their first insertion, and a key inserted again keeps its place and takes the
  new value. The dictionary is the list of its entries in this order; its number of
  entries is the length of the list.
\<close>

definition dict :: "('k \<times> 'v) list \<Rightarrow> ('k \<times> 'v) list" where
  "dict pairs = foldl (\<lambda>d (k, v). AList.update k v d) [] pairs"

text \<open>
  \<^verbatim>\<open>process_csv_lazily(lines)\<close>. Before its first pull the generator holds the iterator
  \<open>lines\<close> only; afterwards it is suspended in the \<^verbatim>\<open>for\<close> loop with the header it
  has read. The \<^verbatim>\<open>try\<close> around \<^verbatim>\<open>next(lines).split(',')\<close> catches
  \<^verbatim>\<open>StopIteration\<close> and returns, which ends the generator; another exception of
  \<open>lines\<close> is not caught.
\<close>

datatype 's csv_state = Unstarted 's | Rows "string list" 's

definition process_csv_lazily :: "'s \<Rightarrow> 's csv_state" where
  "process_csv_lazily lines = Unstarted lines"

definition process_rows ::
  "(string, 's) iterator \<Rightarrow> string list \<Rightarrow> 's \<Rightarrow> ((string \<times> string) list, 's csv_state) pull option" where
  "process_rows lines header s =
     (case lines s of
        None \<Rightarrow> None
      | Some Exhausted \<Rightarrow> Some Exhausted
      | Some (Raised e) \<Rightarrow> Some (Raised e)
      | Some (Value line s') \<Rightarrow>
          Some (Value (dict (zip header (str_split line CHR '',''))) (Rows header s')))"

fun process_csv_next ::
  "(string, 's) iterator \<Rightarrow> ((string \<times> string) list, 's csv_state) iterator" where
  "process_csv_next lines (Unstarted s) =
     (case lines s of
        None \<Rightarrow> None
      | Some Exhausted \<Rightarrow> Some Exhausted
      | Some (Raised e) \<Rightarrow> Some (Raised e)
      | Some (Value first s') \<Rightarrow> process_rows lines (str_split first CHR '','') s')"
| "process_csv_next lines (Rows header s) = process_rows lines header s"

subsection \<open>Unbounded iterators\<close>

text \<open>
  An iterator is unbounded from a state when every number of pulls succeeds: for every
  \<open>n\<close> the first \<open>n\<close> pulls all return a value, so there is always a next element and
  never an exhaustion. It is never exhausted when no number of pulls ends in an exhaustion
  or an exception: the pulls return values as long as they return at all. It keeps
  yielding even values when, beyond every position, some
  later pull returns an even value (and all pulls up to it return values).
\<close>

definition unbounded :: "('a, 's) iterator \<Rightarrow> 's \<Rightarrow> bool" where
  "unbounded it s \<longleftrightarrow> (\<forall>n. \<exists>vs s'. take_n n it s = Some (Value vs s'))"

definition never_exhausted :: "('a, 's) iterator \<Rightarrow> 's \<Rightarrow> bool" where
  "never_exhausted it s \<longleftrightarrow>
     (\<forall>n r. take_n n it s = Some r \<longrightarrow> (\<exists>vs s'. r = Value vs s'))"

definition keeps_yielding_even :: "(int, 's) iterator \<Rightarrow> 's \<Rightarrow> bool" where
  "keeps_yielding_even it s \<longleftrightarrow>
     (\<forall>n. \<exists>m vs s'. take_n (n + Suc m) it s = Some (Value vs s') \<and> last vs mod 2 = 0)"

subsection \<open>Separate generator objects\<close>



section \<open>Draining a finite iterator\<close>

lemma drain_Exhausted: "it s = Some Exhausted \<Longrightarrow> drain it s = Some (Inr [])"
  by (subst drain.simps) simp

lemma drain_Value:
  "it s = Some (Value v s') \<Longrightarrow> drain it s' = Some (Inr vs) \<Longrightarrow> drain it s = Some (Inr (v # vs))"
  by (subst drain.simps) simp

lemma drain_same_pull: "it s = it s' \<Longrightarrow> drain it s = drain it s'"
  by (subst drain.simps, subst (2) drain.simps) simp

lemma drain_Nil_iff: "drain it s = Some (Inr []) \<longleftrightarrow> it s = Some Exhausted"
  by (subst drain.simps)
    (auto split: option.splits pull.splits sum.splits Option.bind_splits)

lemma drain_Cons_iff:
  "drain it s = Some (Inr (v # vs)) \<longleftrightarrow>
     (\<exists>s'. it s = Some (Value v s') \<and> drain it s' = Some (Inr vs))"
  by (subst drain.simps)
    (auto split: option.splits pull.splits sum.splits Option.bind_splits)

lemma drain_read_numbers: "drain read_numbers_next data = Some (Inr data)"
  by (induction data) (simp_all add: drain_Exhausted drain_Value)

lemma drain_square:
  "drain it s = Some (Inr xs) \<Longrightarrow> drain (square it) s = Some (Inr (map (\<lambda>num. num ^ 2) xs))"
proof (induction xs arbitrary: s)
  case Nil
  then have "it s = Some Exhausted" by (simp add: drain_Nil_iff)
  then have "square it s = Some Exhausted" by (simp add: square_def)
  then show ?case by (simp add: drain_Exhausted)
next
  case (Cons x xs)
  then obtain s' where s': "it s = Some (Value x s')" "drain it s' = Some (Inr xs)"
    by (auto simp: drain_Cons_iff)
  from s'(1) have "square it s = Some (Value (x ^ 2) s')" by (simp add: square_def)
  moreover from Cons.IH [OF s'(2)]
  have "drain (square it) s' = Some (Inr (map (\<lambda>num. num ^ 2) xs))" .
  ultimately show ?case by (simp add: drain_Value)
qed

lemma drain_filter_even:
  "drain it s = Some (Inr xs) \<Longrightarrow>
     drain (filter_even it) s = Some (Inr (filter (\<lambda>num. num mod 2 = 0) xs))"
proof (induction xs arbitrary: s)
  case Nil
  then have "it s = Some Exhausted" by (simp add: drain_Nil_iff)
  then have "filter_even it s = Some Exhausted" by (subst filter_even.simps) simp
  then show ?case by (simp add: drain_Exhausted)
next
  case (Cons x xs)
  then obtain s' where s': "it s = Some (Value x s')" "drain it s' = Some (Inr xs)"
    by (auto simp: drain_Cons_iff)
  from Cons.IH [OF s'(2)]
  have IH: "drain (filter_even it) s' = Some (Inr (filter (\<lambda>num. num mod 2 = 0) xs))" .
  show ?case
  proof (cases "x mod 2 = 0")
    case True
    with s'(1) have "filter_even it s = Some (Value x s')"
      by (subst filter_even.simps) simp
    with IH True show ?thesis by (simp add: drain_Value)
  next
    case False
    with s'(1) have "filter_even it s = filter_even it s'"
      by (subst filter_even.simps) simp
    then have "drain (filter_even it) s = drain (filter_even it) s'"
      by (rule drain_same_pull)
    with IH False show ?thesis by simp
  qed
qed

lemma drain_apply_stage:
  "drain it s = Some (Inr xs) \<Longrightarrow> drain (apply_stage st it) s = Some (Inr (eager_stage st xs))"
  by (cases st) (simp_all add: drain_square drain_filter_even)

lemma compose_snoc: "compose (stages @ [st]) source = apply_stage st (compose stages source)"
  by (simp add: compose_def)

lemma eager_snoc: "eager (stages @ [st]) xs = eager_stage st (eager stages xs)"
  by (simp add: eager_def)

lemma drain_compose:
  "drain it s = Some (Inr xs) \<Longrightarrow> drain (compose stages it) s = Some (Inr (eager stages xs))"
proof (induction stages rule: rev_induct)
  case Nil
  then show ?case by (simp add: compose_def eager_def)
next
  case (snoc st stages)
  then show ?case by (simp add: compose_snoc eager_snoc drain_apply_stage)
qed

section \<open>The pipeline claims\<close>

text \<open>
  Claim C1. For every finite input sequence \<open>S\<close> and every composition of the module's
  map and filter stages, draining the lazily composed pipeline over \<open>S\<close> returns
  exactly the list the eager transform computes from \<open>S\<close>, in the same order; and a
  filter stage put after any such composition returns a subsequence of what it was fed,
  the relative order unchanged.
\<close>

theorem pipeline_refines_eager:
  "drain (compose stages read_numbers_next) (read_numbers S) = Some (Inr (eager stages S)) \<and>
   (\<exists>ys. drain (filter_even (compose stages read_numbers_next)) (read_numbers S) = Some (Inr ys) \<and>
         subseq ys (eager stages S))"
proof -
  have src: "drain read_numbers_next (read_numbers S) = Some (Inr S)"
    by (simp add: read_numbers_def drain_read_numbers)
  have all: "drain (compose stages read_numbers_next) (read_numbers S) = Some (Inr (eager stages S))"
    using src by (rule drain_compose)
  from all have "drain (filter_even (compose stages read_numbers_next)) (read_numbers S)
      = Some (Inr (filter (\<lambda>num. num mod 2 = 0) (eager stages S)))"
    by (rule drain_filter_even)
  with all show ?thesis by simp
qed

text \<open>
  Claim C2. On the data of \<^verbatim>\<open>demonstrate_pipeline\<close>, the list 1 to 10, draining
  \<^verbatim>\<open>square(filter_even(read_numbers(data)))\<close> returns \<open>[4, 16, 36, 64, 100]\<close>.
\<close>

theorem demonstrate_pipeline_result:
  "demonstrate_pipeline = Some (Inr [4, 16, 36, 64, 100])"
  unfolding demonstrate_pipeline_def read_numbers_def
  by (simp add: drain.simps filter_even.simps square_def)

section \<open>The accumulator\<close>



text \<open>
  Claim C4. A value sent to the accumulator before its first \<^verbatim>\<open>next\<close> is refused
  with \<^verbatim>\<open>TypeError\<close>, and so is any sequence of sends that starts there: nothing is
  added and no state is returned.
\<close>

theorem accumulator_rejects_early_send:
  "send (Some v) accumulator = Inl TypeError \<and> send_all (v # vs) accumulator = Inl TypeError"
  by (simp add: accumulator_def)

section \<open>Flattening\<close>

text \<open>
  Claim C5. Draining \<open>flatten\<close> on the nested list of \<^verbatim>\<open>demonstrate_yield_from\<close>,
  \<^verbatim>\<open>[1, [2, 3, [4, 5]], 6, [7, [8, 9]]]\<close>, returns the atoms 1 to 9 in depth-first,
  left-to-right order.
\<close>

theorem demonstrate_yield_from_result:
  "demonstrate_yield_from = Some (Inr [1, 2, 3, 4, 5, 6, 7, 8, 9])"
  unfolding demonstrate_yield_from_def flatten_def
  by (simp add: drain.simps)

section \<open>Exhaustion of finite iterators\<close>

lemma take_n_past_end:
  "drain it s = Some (Inr xs) \<Longrightarrow> take_n (Suc (length xs)) it s = Some Exhausted"
proof (induction xs arbitrary: s)
  case Nil
  then show ?case by (simp add: drain_Nil_iff)
next
  case (Cons x xs)
  then obtain s' where s': "it s = Some (Value x s')" "drain it s' = Some (Inr xs)"
    by (auto simp: drain_Cons_iff)
  from Cons.IH [OF s'(2)] s'(1) show ?case by simp
qed

lemma drain_count_from:
  "drain count_up_to_next \<lparr>max_value = m, count = c\<rparr> = Some (Inr [c..m])"
proof (induction "nat (m + 1 - c)" arbitrary: c)
  case 0
  then have "\<not> c \<le> m" by simp
  then show ?case by (simp add: drain_Exhausted count_up_to_next_def)
next
  case (Suc k)
  then have le: "c \<le> m" and k: "k = nat (m + 1 - (c + 1))" by simp_all
  have "count_up_to_next \<lparr>max_value = m, count = c\<rparr>
      = Some (Value c \<lparr>max_value = m, count = c + 1\<rparr>)"
    using le by (simp add: count_up_to_next_def)
  moreover have "drain count_up_to_next \<lparr>max_value = m, count = c + 1\<rparr> = Some (Inr [c + 1..m])"
    using k by (rule Suc.hyps(1))
  ultimately have "drain count_up_to_next \<lparr>max_value = m, count = c\<rparr> = Some (Inr (c # [c + 1..m]))"
    by (rule drain_Value)
  with le show ?case by (simp add: upto_rec1)
qed

lemma drain_count_up_to: "drain count_up_to_next (count_up_to m) = Some (Inr [1..m])"
  by (simp add: count_up_to_def drain_count_from)

lemma Range_finite_up:
  "step r > 0 \<Longrightarrow> \<exists>xs. drain Range_next r = Some (Inr xs)"
proof (induction "nat (stop r - current r)" arbitrary: r rule: less_induct)
  case less
  show ?case
  proof (cases "current r \<ge> stop r")
    case True
    with less.prems have "Range_next r = Some Exhausted" by (simp add: Range_next_def)
    then show ?thesis by (auto simp: drain_Exhausted)
  next
    case False
    let ?r' = "r\<lparr>current := current r + step r\<rparr>"
    from False less.prems have nxt: "Range_next r = Some (Value (current r) ?r')"
      by (simp add: Range_next_def)
    from False less.prems have "nat (stop ?r' - current ?r') < nat (stop r - current r)"
      by simp
    moreover from less.prems have "step ?r' > 0" by simp
    ultimately obtain xs where "drain Range_next ?r' = Some (Inr xs)"
      using less.hyps by blast
    with nxt show ?thesis by (auto dest: drain_Value)
  qed
qed

lemma Range_finite_down:
  "step r < 0 \<Longrightarrow> \<exists>xs. drain Range_next r = Some (Inr xs)"
proof (induction "nat (current r - stop r)" arbitrary: r rule: less_induct)
  case less
  show ?case
  proof (cases "current r \<le> stop r")
    case True
    with less.prems have "Range_next r = Some Exhausted" by (simp add: Range_next_def)
    then show ?thesis by (auto simp: drain_Exhausted)
  next
    case False
    let ?r' = "r\<lparr>current := current r + step r\<rparr>"
    from False less.prems have nxt: "Range_next r = Some (Value (current r) ?r')"
      by (simp add: Range_next_def)
    from False less.prems have "nat (current ?r' - stop ?r') < nat (current r - stop r)"
      by simp
    moreover from less.prems have "step ?r' < 0" by simp
    ultimately obtain xs where "drain Range_next ?r' = Some (Inr xs)"
      using less.hyps by blast
    with nxt show ?thesis by (auto dest: drain_Value)
  qed
qed

lemma Range_finite: "step r \<noteq> 0 \<Longrightarrow> \<exists>xs. drain Range_next r = Some (Inr xs)"
  using Range_finite_up [of r] Range_finite_down [of r] by (cases "step r > 0") auto

lemma step_Range_init: "step (Range_init a b c) = c"
  by (simp add: Range_init_def split: option.splits)

text \<open>
  Claim C6. \<open>count_up_to\<close> and every \<open>Range\<close> with a step other than zero are finite.
  On every finite iterator, the pull after its last element returns \<open>Exhausted\<close>
  (\<^verbatim>\<open>StopIteration\<close>), which is neither a value nor one of the exceptions \<open>Raised\<close>
  carries, and \<open>drain\<close> ends normally on it with the list of the values. Any
  composition of stages over a finite iterator passes the exhaustion on: it drains to a
  list and returns \<open>Exhausted\<close> on the pull after its own last element.
\<close>

theorem exhaustion_signalled_and_propagated:
  "(\<exists>xs. drain count_up_to_next (count_up_to mv) = Some (Inr xs)) \<and>
   (step0 \<noteq> 0 \<longrightarrow> (\<exists>xs. drain Range_next (Range_init start0 stop0 step0) = Some (Inr xs))) \<and>
   (drain it s = Some (Inr xs) \<longrightarrow>
      take_n (Suc (length xs)) it s = Some Exhausted \<and>
      drain (compose stages it) s = Some (Inr (eager stages xs)) \<and>
      take_n (Suc (length (eager stages xs))) (compose stages it) s = Some Exhausted)"
proof (intro conjI impI)
  show "\<exists>xs. drain count_up_to_next (count_up_to mv) = Some (Inr xs)"
    by (simp add: drain_count_up_to)
next
  assume "step0 \<noteq> 0"
  then show "\<exists>xs. drain Range_next (Range_init start0 stop0 step0) = Some (Inr xs)"
    by (simp add: Range_finite step_Range_init)
next
  assume d: "drain it s = Some (Inr xs)"
  then show "take_n (Suc (length xs)) it s = Some Exhausted"
    by (rule take_n_past_end)
  from d show c: "drain (compose stages it) s = Some (Inr (eager stages xs))"
    by (rule drain_compose)
  then show "take_n (Suc (length (eager stages xs))) (compose stages it) s = Some Exhausted"
    by (rule take_n_past_end)
qed

theorem exhaustion_signalled_and_propagated_witness:
  "drain count_up_to_next (count_up_to 3) = Some (Inr [1, 2, 3]) \<and>
   take_n 4 count_up_to_next (count_up_to 3) = Some Exhausted \<and>
   drain (compose [FilterEven, Square] count_up_to_next) (count_up_to 3) = Some (Inr [4]) \<and>
   take_n 2 (compose [FilterEven, Square] count_up_to_next) (count_up_to 3) = Some Exhausted \<and>
   (1::int) \<noteq> 0 \<and>
   (\<exists>xs. drain Range_next (Range_init 2 (Some 8) 1) = Some (Inr xs))"
proof -
  have d: "drain count_up_to_next (count_up_to 3) = Some (Inr [1, 2, 3])"
    by (simp add: count_up_to_def count_up_to_next_def drain.simps)
  have e: "eager [FilterEven, Square] [1, 2, 3] = [4]"
    by (simp add: eager_def)
  have n: "Suc (length [1, 2, 3 :: int]) = 4" "Suc (length [4 :: int]) = 2"
    by simp_all
  note t = exhaustion_signalled_and_propagated
      [of 3 1 2 "Some 8" count_up_to_next "count_up_to 3" "[1, 2, 3]" "[FilterEven, Square]"]
  from t have r: "\<exists>xs. drain Range_next (Range_init 2 (Some 8) 1) = Some (Inr xs)"
    by simp
  from t d have
    "take_n (Suc (length [1, 2, 3 :: int])) count_up_to_next (count_up_to 3) = Some Exhausted"
    "drain (compose [FilterEven, Square] count_up_to_next) (count_up_to 3)
       = Some (Inr (eager [FilterEven, Square] [1, 2, 3]))"
    "take_n (Suc (length (eager [FilterEven, Square] [1, 2, 3])))
       (compose [FilterEven, Square] count_up_to_next) (count_up_to 3) = Some Exhausted"
    by blast+
  then have
    "take_n 4 count_up_to_next (count_up_to 3) = Some Exhausted"
    "drain (compose [FilterEven, Square] count_up_to_next) (count_up_to 3) = Some (Inr [4])"
    "take_n 2 (compose [FilterEven, Square] count_up_to_next) (count_up_to 3) = Some Exhausted"
    unfolding e n .
  moreover have "(1::int) \<noteq> 0" by simp
  ultimately show ?thesis using d r by blast
qed

section \<open>Lazy CSV processing\<close>

lemma drain_iter: "drain iter_next xs = Some (Inr xs)"
  by (induction xs) (simp_all add: drain_Exhausted drain_Value)

lemma drain_process_rows:
  "drain lines s = Some (Inr ls) \<Longrightarrow>
     drain (process_csv_next lines) (Rows header s)
       = Some (Inr (map (\<lambda>line. dict (zip header (str_split line CHR '','' ))) ls))"
proof (induction ls arbitrary: s)
  case Nil
  then have "lines s = Some Exhausted" by (simp add: drain_Nil_iff)
  then have "process_csv_next lines (Rows header s) = Some Exhausted"
    by (simp add: process_rows_def)
  then show ?case by (simp add: drain_Exhausted)
next
  case (Cons l ls)
  then obtain s' where s': "lines s = Some (Value l s')" "drain lines s' = Some (Inr ls)"
    by (auto simp: drain_Cons_iff)
  from s'(1) have "process_csv_next lines (Rows header s)
      = Some (Value (dict (zip header (str_split l CHR '','' ))) (Rows header s'))"
    by (simp add: process_rows_def)
  with Cons.IH [OF s'(2)] show ?case by (simp add: drain_Value)
qed

lemma drain_process_csv:
  assumes "drain lines s = Some (Inr (first # rest))"
  shows "drain (process_csv_next lines) (process_csv_lazily s)
       = Some (Inr (map (\<lambda>line. dict (zip (str_split first CHR '','') (str_split line CHR '','' ))) rest))"
proof -
  from assms obtain s' where s': "lines s = Some (Value first s')" "drain lines s' = Some (Inr rest)"
    by (auto simp: drain_Cons_iff)
  let ?header = "str_split first CHR '',''"
  from s'(1) have "process_csv_next lines (Unstarted s) = process_csv_next lines (Rows ?header s')"
    by simp
  then have "drain (process_csv_next lines) (Unstarted s)
      = drain (process_csv_next lines) (Rows ?header s')"
    by (rule drain_same_pull)
  with drain_process_rows [OF s'(2)] show ?thesis
    by (simp add: process_csv_lazily_def)
qed

lemma drain_process_csv_empty:
  assumes "drain lines s = Some (Inr [])"
  shows "drain (process_csv_next lines) (process_csv_lazily s) = Some (Inr [])"
proof -
  from assms have "lines s = Some Exhausted" by (simp add: drain_Nil_iff)
  then have "process_csv_next lines (process_csv_lazily s) = Some Exhausted"
    by (simp add: process_csv_lazily_def)
  then show ?thesis by (rule drain_Exhausted)
qed

lemma foldl_update_keys:
  "fst ` set (foldl (\<lambda>d (k, v). AList.update k v d) acc ps) = fst ` set acc \<union> fst ` set ps"
proof (induction ps arbitrary: acc)
  case Nil
  then show ?case by simp
next
  case (Cons p ps)
  obtain k v where p: "p = (k, v)" by (cases p)
  have "fst ` set (AList.update k v acc) = insert k (fst ` set acc)"
    by (simp add: dom_update)
  with Cons.IH [of "AList.update k v acc"] show ?case
    unfolding p by simp
qed

lemma foldl_update_distinct:
  "distinct (map fst acc) \<Longrightarrow> distinct (map fst (foldl (\<lambda>d (k, v). AList.update k v d) acc ps))"
  by (induction ps arbitrary: acc) (auto simp: distinct_update)

lemma update_fresh: "k \<notin> fst ` set al \<Longrightarrow> AList.update k v al = al @ [(k, v)]"
  by (induction al) auto

lemma foldl_update_fresh:
  "distinct (map fst (acc @ ps)) \<Longrightarrow> foldl (\<lambda>d (k, v). AList.update k v d) acc ps = acc @ ps"
proof (induction ps arbitrary: acc)
  case Nil
  then show ?case by simp
next
  case (Cons p ps)
  obtain k v where p: "p = (k, v)" by (cases p)
  from Cons.prems p have "k \<notin> fst ` set acc" by auto
  then have "AList.update k v acc = acc @ [(k, v)]" by (rule update_fresh)
  moreover from Cons.prems p have "distinct (map fst ((acc @ [(k, v)]) @ ps))" by simp
  ultimately show ?case using Cons.IH [of "acc @ [(k, v)]"] p by simp
qed

lemma dict_keys: "fst ` set (dict ps) = fst ` set ps"
  by (simp add: dict_def foldl_update_keys)

lemma dict_distinct: "distinct (map fst (dict ps))"
  by (simp add: dict_def foldl_update_distinct)

lemma dict_distinct_id: "distinct (map fst ps) \<Longrightarrow> dict ps = ps"
  by (simp add: dict_def foldl_update_fresh)

lemma dict_length: "length (dict ps) = card (fst ` set ps)"
proof -
  have "length (dict ps) = length (map fst (dict ps))" by simp
  also have "\<dots> = card (set (map fst (dict ps)))"
    using dict_distinct [of ps] by (simp only: distinct_card)
  also have "\<dots> = card (fst ` set ps)" by (simp add: dict_keys)
  finally show ?thesis .
qed

lemma zip_keys: "fst ` set (zip hs vs) = set (take (min (length hs) (length vs)) hs)"
proof -
  have "fst ` set (zip hs vs) = set (map fst (zip hs vs))" by simp
  also have "map fst (zip hs vs) = take (min (length hs) (length vs)) hs"
    by (simp add: map_fst_zip_take min.commute)
  finally show ?thesis .
qed

lemma dict_zip_lookup:
  assumes "distinct header" "i < length header" "i < length vals"
  shows "map_of (dict (zip header vals)) (header ! i) = Some (vals ! i)"
proof -
  let ?n = "min (length header) (length vals)"
  have "distinct (map fst (zip header vals))"
    using assms(1) by (simp add: map_fst_zip_take distinct_take)
  then have "dict (zip header vals) = zip header vals" by (rule dict_distinct_id)
  moreover have "map_of (zip header vals) (header ! i) = Some (vals ! i)"
  proof -
    have z: "zip header vals = zip (take ?n header) (take ?n vals)"
      by (simp add: take_zip [symmetric])
    have "map_of (zip (take ?n header) (take ?n vals)) (take ?n header ! i) = Some (take ?n vals ! i)"
      using assms by (intro map_of_zip_nth) (simp_all add: distinct_take)
    with assms z show ?thesis by simp
  qed
  ultimately show ?thesis by simp
qed

text \<open>
  Claim C9. For every non-empty sequence of lines, draining \<open>process_csv_lazily\<close>
  returns, in the order of the lines, one dictionary for each line after the first: the
  fields of the first line, split at the comma, zipped with the fields of that line. Where
  the field names are distinct, the name at position \<open>i\<close> is mapped to the value at
  position \<open>i\<close>.
\<close>

theorem process_csv_lazily_rows:
  "drain (process_csv_next iter_next) (process_csv_lazily (iter (first # rest)))
     = Some (Inr (map (\<lambda>line. dict (zip (str_split first CHR '','') (str_split line CHR '',''))) rest)) \<and>
   (distinct header \<and> i < length header \<and> i < length vals \<longrightarrow>
      map_of (dict (zip header vals)) (header ! i) = Some (vals ! i))"
proof
  have "drain iter_next (iter (first # rest)) = Some (Inr (first # rest))"
    by (simp add: iter_def drain_iter)
  then show "drain (process_csv_next iter_next) (process_csv_lazily (iter (first # rest)))
     = Some (Inr (map (\<lambda>line. dict (zip (str_split first CHR '','') (str_split line CHR '',''))) rest))"
    by (rule drain_process_csv)
next
  show "distinct header \<and> i < length header \<and> i < length vals \<longrightarrow>
      map_of (dict (zip header vals)) (header ! i) = Some (vals ! i)"
    by (simp add: dict_zip_lookup)
qed

theorem process_csv_lazily_rows_witness:
  "drain (process_csv_next iter_next)
     (process_csv_lazily (iter [''name,age,city'', ''Alice,30,New York'', ''Bob,25,Los Angeles'']))
     = Some (Inr [[(''name'', ''Alice''), (''age'', ''30''), (''city'', ''New York'')],
                  [(''name'', ''Bob''), (''age'', ''25''), (''city'', ''Los Angeles'')]]) \<and>
   map_of (dict (zip [''name'', ''age'', ''city''] [''Alice'', ''30'', ''New York''])) ''age''
     = Some ''30''"
  using process_csv_lazily_rows
    [of "''name,age,city''" "[''Alice,30,New York'', ''Bob,25,Los Angeles'']"
        "[''name'', ''age'', ''city'']" 1 "[''Alice'', ''30'', ''New York'']"]
  by (simp add: str_split_def dict_def)

text \<open>
  Claim C10, as stated: a data line whose number of fields differs from the header's
  gives a dictionary with \<open>min\<close> (header length) (value count) entries. It fails on a
  header that repeats a name: the header \<^verbatim>\<open>a,a\<close> has two fields, the line
  \<^verbatim>\<open>1,2,3\<close> three, and the dictionary has the one entry \<^verbatim>\<open>{'a': '2'}\<close>.
\<close>

theorem csv_entry_count_counterexample:
  "drain (process_csv_next iter_next) (process_csv_lazily (iter [''a,a'', ''1,2,3'']))
     = Some (Inr [[(''a'', ''2'')]]) \<and>
   length (str_split ''a,a'' CHR '','') = 2 \<and>
   length (str_split ''1,2,3'' CHR '','') = 3 \<and>
   length [(''a'', ''2'')]
     \<noteq> min (length (str_split ''a,a'' CHR '','')) (length (str_split ''1,2,3'' CHR '',''))"
  by (simp add: drain.simps process_csv_lazily_def iter_def process_rows_def str_split_def dict_def)

text \<open>
  Claim C10, amended. Over a list of lines \<open>process_csv_lazily\<close> never raises: an
  empty input drains to the empty list, and a non-empty one to one dictionary for each
  line after the header, whatever its number of fields. The keys of that dictionary are
  the first \<open>min\<close> (header length) (value count) names of the header, each once, so it
  has as many entries as there are distinct names among them; where these names are
  distinct it is the positional pairing itself and has exactly
  \<open>min\<close> (header length) (value count) entries. Values beyond the header are dropped and
  names beyond the values are absent.
\<close>

theorem process_csv_lazily_total:
  "drain (process_csv_next iter_next) (process_csv_lazily (iter [])) = Some (Inr []) \<and>
   (\<exists>rows.
      drain (process_csv_next iter_next) (process_csv_lazily (iter (first # rest))) = Some (Inr rows) \<and>
      length rows = length rest \<and>
      (\<forall>j < length rest.
         distinct (map fst (rows ! j)) \<and>
         set (map fst (rows ! j))
           = set (take (min (length (str_split first CHR '','')) (length (str_split (rest ! j) CHR '','')))
                    (str_split first CHR '','')) \<and>
         length (rows ! j)
           = card (set (take (min (length (str_split first CHR '','')) (length (str_split (rest ! j) CHR '','')))
                    (str_split first CHR '',''))) \<and>
         (distinct (take (min (length (str_split first CHR '','')) (length (str_split (rest ! j) CHR '','')))
                    (str_split first CHR '','')) \<longrightarrow>
            rows ! j = zip (str_split first CHR '','') (str_split (rest ! j) CHR '','') \<and>
            length (rows ! j)
              = min (length (str_split first CHR '','')) (length (str_split (rest ! j) CHR '','')))))"
proof
  have "drain iter_next (iter ([] :: string list)) = Some (Inr [])"
    by (simp add: iter_def drain_iter)
  then show "drain (process_csv_next iter_next) (process_csv_lazily (iter [])) = Some (Inr [])"
    by (rule drain_process_csv_empty)
next
  let ?header = "str_split first CHR '',''"
  let ?row = "\<lambda>line. dict (zip ?header (str_split line CHR '',''))"
  have "drain iter_next (iter (first # rest)) = Some (Inr (first # rest))"
    by (simp add: iter_def drain_iter)
  then have d: "drain (process_csv_next iter_next) (process_csv_lazily (iter (first # rest)))
      = Some (Inr (map ?row rest))"
    by (rule drain_process_csv)
  have rows: "distinct (map fst (?row line)) \<and>
         set (map fst (?row line))
           = set (take (min (length ?header) (length (str_split line CHR '',''))) ?header) \<and>
         length (?row line)
           = card (set (take (min (length ?header) (length (str_split line CHR '',''))) ?header)) \<and>
         (distinct (take (min (length ?header) (length (str_split line CHR '',''))) ?header) \<longrightarrow>
            ?row line = zip ?header (str_split line CHR '','') \<and>
            length (?row line) = min (length ?header) (length (str_split line CHR '','')))" for line
  proof -
    let ?vals = "str_split line CHR '',''"
    let ?n = "min (length ?header) (length ?vals)"
    have k: "set (map fst (?row line)) = set (take ?n ?header)"
      using dict_keys [of "zip ?header ?vals"] by (simp add: zip_keys)
    have l: "length (?row line) = card (set (take ?n ?header))"
      by (simp add: dict_length zip_keys)
    have i: "?row line = zip ?header ?vals" if "distinct (take ?n ?header)"
      using that by (intro dict_distinct_id) (simp add: map_fst_zip_take min.commute)
    show ?thesis using k l i dict_distinct [of "zip ?header ?vals"] by auto
  qed
  show "\<exists>rows.
      drain (process_csv_next iter_next) (process_csv_lazily (iter (first # rest))) = Some (Inr rows) \<and>
      length rows = length rest \<and>
      (\<forall>j < length rest.
         distinct (map fst (rows ! j)) \<and>
         set (map fst (rows ! j))
           = set (take (min (length (str_split first CHR '','')) (length (str_split (rest ! j) CHR '','')))
                    (str_split first CHR '','')) \<and>
         length (rows ! j)
           = card (set (take (min (length (str_split first CHR '','')) (length (str_split (rest ! j) CHR '','')))
                    (str_split first CHR '',''))) \<and>
         (distinct (take (min (length (str_split first CHR '','')) (length (str_split (rest ! j) CHR '','')))
                    (str_split first CHR '','')) \<longrightarrow>
            rows ! j = zip (str_split first CHR '','') (str_split (rest ! j) CHR '','') \<and>
            length (rows ! j)
              = min (length (str_split first CHR '','')) (length (str_split (rest ! j) CHR '',''))))"
  proof (intro exI conjI allI impI)
    show "drain (process_csv_next iter_next) (process_csv_lazily (iter (first # rest)))
      = Some (Inr (map ?row rest))" by (rule d)
  qed (use rows in simp_all)
qed

theorem process_csv_lazily_total_witness:
  "drain (process_csv_next iter_next) (process_csv_lazily (iter [''name,age,city'', ''Bob,25'']))
     = Some (Inr [[(''name'', ''Bob''), (''age'', ''25'')]]) \<and>
   distinct (take 2 [''name'', ''age'', ''city'']) \<and>
   length [(''name'', ''Bob''), (''age'', ''25'')] = min 3 2"
proof -
  have s: "str_split ''name,age,city'' CHR '','' = [''name'', ''age'', ''city'']"
     "str_split ''Bob,25'' CHR '','' = [''Bob'', ''25'']"
    by (simp_all add: str_split_def)
  from process_csv_lazily_total [of "''name,age,city''" "[''Bob,25'']"]
  obtain rows where
    r: "drain (process_csv_next iter_next) (process_csv_lazily (iter [''name,age,city'', ''Bob,25'']))
          = Some (Inr rows)" "length rows = 1"
      "rows ! 0 = [(''name'', ''Bob''), (''age'', ''25'')]"
    by (auto simp: s)
  from r(2,3) have "rows = [[(''name'', ''Bob''), (''age'', ''25'')]]"
    by (cases rows) simp_all
  with r(1) show ?thesis by simp
qed

section \<open>Unbounded sources\<close>

lemma take_n_Value_length:
  "take_n n it s = Some (Value vs s') \<Longrightarrow> length vs = n"
  by (induction n arbitrary: s vs)
    (auto split: option.splits pull.splits)

lemma take_n_add_split:
  "take_n (n + m) it s = Some (Value us s'') \<Longrightarrow>
     \<exists>vs s' ws. take_n n it s = Some (Value vs s') \<and> take_n m it s' = Some (Value ws s'') \<and>
       us = vs @ ws"
proof (induction n arbitrary: s us)
  case 0
  then show ?case by simp
next
  case (Suc n)
  from Suc.prems obtain v s1 us' where
    p: "it s = Some (Value v s1)" "take_n (n + m) it s1 = Some (Value us' s'')" "us = v # us'"
    by (auto split: option.splits pull.splits)
  from Suc.IH [OF p(2)] obtain vs s' ws where
    "take_n n it s1 = Some (Value vs s')" "take_n m it s' = Some (Value ws s'')" "us' = vs @ ws"
    by blast
  with p(1,3) show ?case by simp
qed

lemma take_n_add_join:
  "take_n n it s = Some (Value vs s') \<Longrightarrow> take_n m it s' = Some (Value ws s'') \<Longrightarrow>
     take_n (n + m) it s = Some (Value (vs @ ws) s'')"
  by (induction n arbitrary: s vs) (auto split: option.splits pull.splits)

lemma take_n_square:
  "take_n n it s = Some (Value vs s') \<Longrightarrow>
     take_n n (square it) s = Some (Value (map (\<lambda>num. num ^ 2) vs) s')"
  by (induction n arbitrary: s vs) (auto simp: square_def split: option.splits pull.splits)

lemma unbounded_square: "unbounded it s \<Longrightarrow> unbounded (square it) s"
  unfolding unbounded_def by (blast dest: take_n_square)

lemma keeps_yielding_evenD:
  "keeps_yielding_even it s \<Longrightarrow>
     \<exists>m vs s'. take_n (n + Suc m) it s = Some (Value vs s') \<and> last vs mod 2 = 0"
  by (simp add: keeps_yielding_even_def)

lemma keeps_yielding_even_unbounded:
  assumes "keeps_yielding_even it s"
  shows "unbounded it s"
  unfolding unbounded_def
proof
  fix n
  from keeps_yielding_evenD [OF assms, of n]
  obtain m vs s' where "take_n (n + Suc m) it s = Some (Value vs s')"
    by auto
  from take_n_add_split [OF this] show "\<exists>vs s'. take_n n it s = Some (Value vs s')"
    by auto
qed

lemma keeps_yielding_even_after:
  assumes "keeps_yielding_even it s" "take_n k it s = Some (Value ws s')"
  shows "keeps_yielding_even it s'"
  unfolding keeps_yielding_even_def
proof
  fix n
  from keeps_yielding_evenD [OF assms(1), of "k + n"] obtain m us t where
    t: "take_n (k + n + Suc m) it s = Some (Value us t)" "last us mod 2 = 0"
    by auto
  from t(1) have "take_n (k + (n + Suc m)) it s = Some (Value us t)"
    by (simp only: add.assoc)
  from take_n_add_split [OF this] assms(2) obtain vs where
    v: "take_n (n + Suc m) it s' = Some (Value vs t)" "us = ws @ vs"
    by auto
  from v(1) have "length vs = n + Suc m" by (rule take_n_Value_length)
  then have "vs \<noteq> []" by auto
  with v(2) t(2) have "last vs mod 2 = 0" by simp
  with v(1) show "\<exists>m vs t. take_n (n + Suc m) it s' = Some (Value vs t) \<and> last vs mod 2 = 0"
    by - (rule exI conjI | assumption)+
qed

lemma filter_even_finds:
  "take_n (Suc m) it s = Some (Value vs s1) \<Longrightarrow> last vs mod 2 = 0 \<Longrightarrow>
     \<exists>v s' k ws. filter_even it s = Some (Value v s') \<and> v mod 2 = 0 \<and>
       take_n k it s = Some (Value ws s')"
proof (induction m arbitrary: s vs)
  case 0
  then obtain v where v: "it s = Some (Value v s1)" "vs = [v]"
    by (auto split: option.splits pull.splits)
  with "0.prems"(2) have "filter_even it s = Some (Value v s1)" "v mod 2 = 0"
    by (subst filter_even.simps, simp, simp)
  moreover from v(1) have "take_n (Suc 0) it s = Some (Value [v] s1)" by simp
  ultimately show ?case by - (rule exI conjI | assumption)+
next
  case (Suc m)
  from Suc.prems(1) obtain v s2 vs' where
    p: "it s = Some (Value v s2)" "take_n (Suc m) it s2 = Some (Value vs' s1)" "vs = v # vs'"
    by (auto split: option.splits pull.splits)
  show ?case
  proof (cases "v mod 2 = 0")
    case True
    with p(1) have "filter_even it s = Some (Value v s2)"
      by (subst filter_even.simps) simp
    moreover from p(1) have "take_n (Suc 0) it s = Some (Value [v] s2)" by simp
    ultimately show ?thesis using True by - (rule exI conjI | assumption)+
  next
    case False
    from p(2) have "length vs' = Suc m" by (rule take_n_Value_length)
    then have "vs' \<noteq> []" by auto
    with p(3) Suc.prems(2) have "last vs' mod 2 = 0" by simp
    from Suc.IH [OF p(2) this] obtain w s' k ws where
      w: "filter_even it s2 = Some (Value w s')" "w mod 2 = 0"
         "take_n k it s2 = Some (Value ws s')"
      by auto
    from False p(1) have "filter_even it s = filter_even it s2"
      by (subst filter_even.simps) simp
    with w(1) have "filter_even it s = Some (Value w s')" by simp
    moreover from p(1) w(3) have "take_n (Suc k) it s = Some (Value (v # ws) s')" by simp
    ultimately show ?thesis using w(2) by - (rule exI conjI | assumption)+
  qed
qed

lemma filter_even_pull_even:
  assumes "keeps_yielding_even it s"
  shows "\<exists>v s'. filter_even it s = Some (Value v s') \<and> v mod 2 = 0 \<and> keeps_yielding_even it s'"
proof -
  from keeps_yielding_evenD [OF assms, of 0] obtain m vs s1 where
    "take_n (0 + Suc m) it s = Some (Value vs s1)" "last vs mod 2 = 0"
    by auto
  then have "take_n (Suc m) it s = Some (Value vs s1)" "last vs mod 2 = 0" by simp_all
  from filter_even_finds [OF this] obtain v s' k ws where
    f: "filter_even it s = Some (Value v s')" "v mod 2 = 0" "take_n k it s = Some (Value ws s')"
    by auto
  from assms f(3) have "keeps_yielding_even it s'" by (rule keeps_yielding_even_after)
  with f(1,2) show ?thesis by - (rule exI conjI | assumption)+
qed

lemma take_n_filter_even_evens:
  "keeps_yielding_even it s \<Longrightarrow>
     \<exists>vs s'. take_n n (filter_even it) s = Some (Value vs s') \<and> (\<forall>v \<in> set vs. v mod 2 = 0)"
proof (induction n arbitrary: s)
  case 0
  then show ?case by simp
next
  case (Suc n)
  from filter_even_pull_even [OF Suc.prems] obtain v s1 where
    f: "filter_even it s = Some (Value v s1)" "v mod 2 = 0" "keeps_yielding_even it s1"
    by auto
  from Suc.IH [OF f(3)] obtain vs s' where
    "take_n n (filter_even it) s1 = Some (Value vs s')" "\<forall>v \<in> set vs. v mod 2 = 0"
    by auto
  with f(1,2) show ?case by simp
qed

lemma keeps_yielding_even_filter_even:
  assumes "keeps_yielding_even it s"
  shows "keeps_yielding_even (filter_even it) s"
  unfolding keeps_yielding_even_def
proof
  fix n
  from take_n_filter_even_evens [OF assms, of "n + Suc 0"] obtain vs s' where
    t: "take_n (n + Suc 0) (filter_even it) s = Some (Value vs s')" "\<forall>v \<in> set vs. v mod 2 = 0"
    by auto
  from t(1) have "length vs = n + Suc 0" by (rule take_n_Value_length)
  then have "vs \<noteq> []" by auto
  with t(2) have "last vs mod 2 = 0" by simp
  with t(1) show "\<exists>m vs s'. take_n (n + Suc m) (filter_even it) s = Some (Value vs s') \<and>
      last vs mod 2 = 0"
    by - (rule exI conjI | assumption)+
qed

lemma keeps_yielding_even_square:
  assumes "keeps_yielding_even it s"
  shows "keeps_yielding_even (square it) s"
  unfolding keeps_yielding_even_def
proof
  fix n
  from keeps_yielding_evenD [OF assms, of n] obtain m vs s' where
    t: "take_n (n + Suc m) it s = Some (Value vs s')" "last vs mod 2 = 0"
    by auto
  from t(1) have "length vs = n + Suc m" by (rule take_n_Value_length)
  then have ne: "vs \<noteq> []" by auto
  from t(2) have "even (last vs)" by presburger
  then have "even ((last vs)\<^sup>2)" by simp
  then have "(last vs)\<^sup>2 mod 2 = 0" by presburger
  with ne have "last (map (\<lambda>num. num ^ 2) vs) mod 2 = 0" by (simp add: last_map)
  with take_n_square [OF t(1)]
  show "\<exists>m vs s'. take_n (n + Suc m) (square it) s = Some (Value vs s') \<and> last vs mod 2 = 0"
    by - (rule exI conjI | assumption)+
qed

lemma keeps_yielding_even_compose:
  "keeps_yielding_even it s \<Longrightarrow> keeps_yielding_even (compose stages it) s"
proof (induction stages rule: rev_induct)
  case Nil
  then show ?case by (simp add: compose_def)
next
  case (snoc st stages)
  then show ?case
    by (cases st)
      (simp_all add: compose_snoc keeps_yielding_even_filter_even keeps_yielding_even_square)
qed

lemma unbounded_never_exhausted: "unbounded it s \<Longrightarrow> never_exhausted it s"
  unfolding unbounded_def never_exhausted_def by (metis option.inject)

lemma never_exhausted_step:
  assumes "never_exhausted it s" "it s = Some r"
  shows "\<exists>v s'. r = Value v s' \<and> never_exhausted it s'"
proof -
  from assms(2) have "take_n (Suc 0) it s
      = Some (case r of Value v s' \<Rightarrow> Value [v] s' | Exhausted \<Rightarrow> Exhausted | Raised e \<Rightarrow> Raised e)"
    by (simp split: pull.splits)
  with assms(1) obtain v s' where r: "r = Value v s'"
    unfolding never_exhausted_def by (cases r) fastforce+
  have "never_exhausted it s'"
    unfolding never_exhausted_def
  proof (intro allI impI)
    fix n r'
    assume "take_n n it s' = Some r'"
    with assms(2) r have "take_n (Suc n) it s
        = Some (case r' of Value vs s'' \<Rightarrow> Value (v # vs) s'' | Exhausted \<Rightarrow> Exhausted
                 | Raised e \<Rightarrow> Raised e)"
      by (simp split: pull.splits)
    with assms(1) show "\<exists>vs s''. r' = Value vs s''"
      unfolding never_exhausted_def by (cases r') fastforce+
  qed
  with r show ?thesis by blast
qed

lemma filter_even_never_exhausted_pull_aux:
  assumes "filter_even it s = Some r"
  shows "never_exhausted it s \<longrightarrow> (\<exists>v s'. r = Value v s' \<and> never_exhausted it s')"
proof (rule filter_even.raw_induct
    [OF _ assms, where P = "\<lambda>it s r. never_exhausted it s \<longrightarrow> (\<exists>v s'. r = Value v s' \<and> never_exhausted it s')"])
  fix filter_even' :: "(int, 'a) iterator \<Rightarrow> (int, 'a) iterator" and numbers s r
  assume IH: "\<And>it s r. filter_even' it s = Some r \<Longrightarrow>
      never_exhausted it s \<longrightarrow> (\<exists>v s'. r = Value v s' \<and> never_exhausted it s')"
  assume eq: "(case numbers s of
        None \<Rightarrow> None
      | Some (Value num s') \<Rightarrow>
          if num mod 2 = 0 then Some (Value num s') else filter_even' numbers s'
      | Some Exhausted \<Rightarrow> Some Exhausted
      | Some (Raised e) \<Rightarrow> Some (Raised e)) = Some r"
  show "never_exhausted numbers s \<longrightarrow> (\<exists>v s'. r = Value v s' \<and> never_exhausted numbers s')"
  proof
    assume ne: "never_exhausted numbers s"
    from eq obtain r0 where r0: "numbers s = Some r0" by (cases "numbers s") simp_all
    from never_exhausted_step [OF ne r0] obtain v s' where
      p: "r0 = Value v s'" "never_exhausted numbers s'" by blast
    show "\<exists>v s'. r = Value v s' \<and> never_exhausted numbers s'"
    proof (cases "v mod 2 = 0")
      case True
      with eq r0 p show ?thesis by auto
    next
      case False
      with eq r0 p(1) have "filter_even' numbers s' = Some r" by simp
      from IH [OF this] p(2) show ?thesis by blast
    qed
  qed
qed

lemma take_n_filter_even_never_exhausted:
  "take_n n (filter_even it) s = Some r \<Longrightarrow> never_exhausted it s \<Longrightarrow> \<exists>vs s'. r = Value vs s'"
proof (induction n arbitrary: s r)
  case 0
  then show ?case by auto
next
  case (Suc n)
  from Suc.prems(1) obtain r1 where r1: "filter_even it s = Some r1"
    by (auto split: option.splits)
  from filter_even_never_exhausted_pull_aux [OF r1] Suc.prems(2) obtain v s1 where
    v: "r1 = Value v s1" "never_exhausted it s1" by blast
  with Suc.prems(1) r1 obtain r2 where r2: "take_n n (filter_even it) s1 = Some r2"
    by (auto split: option.splits)
  from Suc.IH [OF r2 v(2)] obtain vs s' where "r2 = Value vs s'" by blast
  with Suc.prems(1) r1 v(1) r2 show ?case by auto
qed

lemma never_exhausted_filter_even:
  "never_exhausted it s \<Longrightarrow> never_exhausted (filter_even it) s"
  unfolding never_exhausted_def [of "filter_even it"]
  by (blast dest: take_n_filter_even_never_exhausted)

lemma take_n_square_eq:
  "take_n n (square it) s =
     map_option (\<lambda>r. case r of Value vs s' \<Rightarrow> Value (map (\<lambda>num. num ^ 2) vs) s'
                       | Exhausted \<Rightarrow> Exhausted | Raised e \<Rightarrow> Raised e)
       (take_n n it s)"
  by (induction n arbitrary: s) (auto simp: square_def split: option.splits pull.splits)

lemma never_exhausted_square:
  "never_exhausted it s \<Longrightarrow> never_exhausted (square it) s"
  unfolding never_exhausted_def take_n_square_eq
  by (fastforce split: pull.splits)

lemma never_exhausted_compose:
  "never_exhausted it s \<Longrightarrow> never_exhausted (compose stages it) s"
proof (induction stages rule: rev_induct)
  case Nil
  then show ?case by (simp add: compose_def)
next
  case (snoc st stages)
  then show ?case
    by (cases st)
      (simp_all add: compose_snoc never_exhausted_filter_even never_exhausted_square)
qed

subsection \<open>The Fibonacci generator keeps yielding even values\<close>

lemma take_n_fibonacci:
  "\<exists>vs a' b'. take_n n fibonacci_next (a, b) = Some (Value vs (a', b')) \<and>
     (odd a \<or> odd b \<longrightarrow> odd a' \<or> odd b')"
proof (induction n arbitrary: a b)
  case 0
  then show ?case by simp
next
  case (Suc n)
  from Suc.IH [of b "a + b"] obtain vs a' b' where
    "take_n n fibonacci_next (b, a + b) = Some (Value vs (a', b'))"
    "odd b \<or> odd (a + b) \<longrightarrow> odd a' \<or> odd b'"
    by blast
  then have "take_n (Suc n) fibonacci_next (a, b) = Some (Value (a # vs) (a', b'))"
    "odd a \<or> odd b \<longrightarrow> odd a' \<or> odd b'"
    by auto
  then show ?case by blast
qed

lemma fibonacci_even_ahead:
  assumes "odd a \<or> odd b"
  shows "\<exists>m vs s'. take_n (Suc m) fibonacci_next (a, b) = Some (Value vs s') \<and> last vs mod 2 = 0"
proof -
  consider "even a" | "odd a" "even b" | "odd a" "odd b" by blast
  then show ?thesis
  proof cases
    case 1
    then have "take_n (Suc 0) fibonacci_next (a, b) = Some (Value [a] (b, a + b))"
      "last [a] mod 2 = 0" by simp_all
    then show ?thesis by - (rule exI conjI | assumption)+
  next
    case 2
    then have "take_n (Suc (Suc 0)) fibonacci_next (a, b) = Some (Value [a, b] (a + b, b + (a + b)))"
      "last [a, b] mod 2 = 0" by simp_all
    then show ?thesis by - (rule exI conjI | assumption)+
  next
    case 3
    then have "even (a + b)" by simp
    then have "take_n (Suc (Suc (Suc 0))) fibonacci_next (a, b)
        = Some (Value [a, b, a + b] (b + (a + b), a + b + (b + (a + b))))"
      "last [a, b, a + b] mod 2 = 0" by simp_all
    then show ?thesis by - (rule exI conjI | assumption)+
  qed
qed

lemma fibonacci_keeps_yielding_even:
  "keeps_yielding_even fibonacci_next fibonacci_generator"
  unfolding keeps_yielding_even_def
proof
  fix n
  from take_n_fibonacci [of n 0 1] obtain vs a b where
    t: "take_n n fibonacci_next (0, 1) = Some (Value vs (a, b))" "odd a \<or> odd b"
    by auto
  from fibonacci_even_ahead [OF t(2)] obtain m ws s' where
    w: "take_n (Suc m) fibonacci_next (a, b) = Some (Value ws s')" "last ws mod 2 = 0"
    by auto
  from w(1) have "length ws = Suc m" by (rule take_n_Value_length)
  then have "ws \<noteq> []" by auto
  with w(2) have "last (vs @ ws) mod 2 = 0" by simp
  moreover from t(1) w(1) have "take_n (n + Suc m) fibonacci_next (0, 1) = Some (Value (vs @ ws) s')"
    by (rule take_n_add_join)
  ultimately show "\<exists>m vs s'. take_n (n + Suc m) fibonacci_next fibonacci_generator
      = Some (Value vs s') \<and> last vs mod 2 = 0"
    unfolding fibonacci_generator_def by - (rule exI conjI | assumption)+
qed

subsection \<open>A filter over a source without even values\<close>

lemma filter_even_stuck_aux:
  assumes "filter_even it s = Some r"
  shows "(\<exists>v. it s = Some (Value v s) \<and> v mod 2 \<noteq> 0) \<longrightarrow> False"
proof (rule filter_even.raw_induct
    [OF _ assms, where P = "\<lambda>it s r. (\<exists>v. it s = Some (Value v s) \<and> v mod 2 \<noteq> 0) \<longrightarrow> False"])
  fix filter_even' :: "(int, 'a) iterator \<Rightarrow> (int, 'a) iterator" and numbers s r
  assume IH: "\<And>it s r. filter_even' it s = Some r \<Longrightarrow>
      (\<exists>v. it s = Some (Value v s) \<and> v mod 2 \<noteq> 0) \<longrightarrow> False"
  assume eq: "(case numbers s of
        None \<Rightarrow> None
      | Some (Value num s') \<Rightarrow>
          if num mod 2 = 0 then Some (Value num s') else filter_even' numbers s'
      | Some Exhausted \<Rightarrow> Some Exhausted
      | Some (Raised e) \<Rightarrow> Some (Raised e)) = Some r"
  show "(\<exists>v. numbers s = Some (Value v s) \<and> v mod 2 \<noteq> 0) \<longrightarrow> False"
  proof
    assume "\<exists>v. numbers s = Some (Value v s) \<and> v mod 2 \<noteq> 0"
    then obtain v where v: "numbers s = Some (Value v s)" "v mod 2 \<noteq> 0" by auto
    with eq have "filter_even' numbers s = Some r" by simp
    from IH [OF this] v show False by auto
  qed
qed

lemma filter_even_stuck:
  assumes "it s = Some (Value v s)" "v mod 2 \<noteq> 0"
  shows "filter_even it s = None"
proof (cases "filter_even it s")
  case None
  then show ?thesis .
next
  case (Some r)
  from filter_even_stuck_aux [OF Some] assms show ?thesis by auto
qed

lemma take_n_self_loop:
  "it s = Some (Value v s) \<Longrightarrow> take_n n it s = Some (Value (replicate n v) s)"
  by (induction n) simp_all

lemma unbounded_self_loop: "it s = Some (Value v s) \<Longrightarrow> unbounded it s"
  unfolding unbounded_def by (blast dest: take_n_self_loop)

lemma Range_step_0: "Range_next (Range_init 1 (Some 2) 0) = Some (Value 1 (Range_init 1 (Some 2) 0))"
  by (simp add: Range_init_def Range_next_def)

text \<open>
  Claim C7, as stated: an unbounded source composed with any filter stage can produce an
  \<open>(n+1)\<close>-th element for every \<open>n\<close>. It fails on \<^verbatim>\<open>filter_even(Range(1, 2, 0))\<close>:
  with step 0 the \<open>Range\<close> object yields 1 on every pull and stays as it is, so it is
  unbounded, and the filter's first pull skips odd values forever and never returns.
\<close>

theorem filter_even_starves_counterexample:
  "Range_next (Range_init 1 (Some 2) 0) = Some (Value 1 (Range_init 1 (Some 2) 0)) \<and>
   unbounded Range_next (Range_init 1 (Some 2) 0) \<and>
   filter_even Range_next (Range_init 1 (Some 2) 0) = None \<and>
   take_n 1 (filter_even Range_next) (Range_init 1 (Some 2) 0) = None"
proof -
  have stuck: "filter_even Range_next (Range_init 1 (Some 2) 0) = None"
    using Range_step_0 by (rule filter_even_stuck) simp
  have "take_n (Suc 0) (filter_even Range_next) (Range_init 1 (Some 2) 0) = None"
    by (simp add: stuck)
  then have "take_n 1 (filter_even Range_next) (Range_init 1 (Some 2) 0) = None"
    by simp
  moreover have "unbounded Range_next (Range_init 1 (Some 2) 0)"
    using Range_step_0 by (rule unbounded_self_loop)
  ultimately show ?thesis using stuck Range_step_0
    by - (rule conjI | assumption)+
qed

text \<open>
  Claim C7, amended. An unbounded source composed with the map stage \<open>square\<close> is
  unbounded: for every \<open>n\<close> it produces an \<open>(n+1)\<close>-th element. Composed with any
  stages, \<open>filter_even\<close> among them, it never signals exhaustion: as long as its pulls
  return they return values. When the source keeps yielding even values, any composition
  of the stages over it is unbounded; \<open>fibonacci_generator\<close> is such a source, so every
  composition of the stages over it produces an \<open>(n+1)\<close>-th element for every \<open>n\<close>.
\<close>

theorem unbounded_source_with_stages:
  "(unbounded it s \<longrightarrow>
      unbounded (square it) s \<and> never_exhausted (compose stages it) s) \<and>
   (keeps_yielding_even it s \<longrightarrow> unbounded (compose stages it) s) \<and>
   keeps_yielding_even fibonacci_next fibonacci_generator \<and>
   unbounded (compose stages fibonacci_next) fibonacci_generator"
proof (intro conjI impI)
  assume u: "unbounded it s"
  then show "unbounded (square it) s" by (rule unbounded_square)
  from u have "never_exhausted it s" by (rule unbounded_never_exhausted)
  then show "never_exhausted (compose stages it) s" by (rule never_exhausted_compose)
next
  assume "keeps_yielding_even it s"
  then have "keeps_yielding_even (compose stages it) s" by (rule keeps_yielding_even_compose)
  then show "unbounded (compose stages it) s" by (rule keeps_yielding_even_unbounded)
next
  show "keeps_yielding_even fibonacci_next fibonacci_generator"
    by (rule fibonacci_keeps_yielding_even)
  then have "keeps_yielding_even (compose stages fibonacci_next) fibonacci_generator"
    by (rule keeps_yielding_even_compose)
  then show "unbounded (compose stages fibonacci_next) fibonacci_generator"
    by (rule keeps_yielding_even_unbounded)
qed

theorem unbounded_source_with_stages_witness:
  "unbounded fibonacci_next fibonacci_generator \<and>
   keeps_yielding_even fibonacci_next fibonacci_generator \<and>
   unbounded (square fibonacci_next) fibonacci_generator \<and>
   never_exhausted (compose [FilterEven, Square] fibonacci_next) fibonacci_generator \<and>
   unbounded (compose [FilterEven, Square] fibonacci_next) fibonacci_generator \<and>
   take_n 3 (compose [FilterEven, Square] fibonacci_next) fibonacci_generator
     = Some (Value [0, 4, 64] (13, 21))"
proof -
  note t = unbounded_source_with_stages
    [of fibonacci_next fibonacci_generator "[FilterEven, Square]"]
  from t have k: "keeps_yielding_even fibonacci_next fibonacci_generator" by blast
  then have u: "unbounded fibonacci_next fibonacci_generator"
    by (rule keeps_yielding_even_unbounded)
  have e: "take_n 3 (compose [FilterEven, Square] fibonacci_next) fibonacci_generator
     = Some (Value [0, 4, 64] (13, 21))"
    by (simp add: compose_def square_def filter_even.simps fibonacci_generator_def
        numeral_3_eq_3)
  from t u k e show ?thesis by blast
qed

section \<open>Separate generator objects do not share state\<close>








end
